theory Spec2Isabelle
  imports Main "HOL-Library.Word"
begin

section \<open>Event types (events.py)\<close>

text \<open>
  An event type is a class created by the metaclass \<open>EventMeta\<close>. Its \<open>__new__\<close> stores
  the result of one call of \<open>uuid.uuid4()\<close> under \<open>event_id\<close> in the class namespace;
  the class body supplies the display string \<open>name\<close> (annotated \<open>ClassVar[str]\<close>).
  A UUID is a 128-bit value. The generator \<open>uuid.uuid4\<close> belongs to the standard
  library, so it enters the model as a parameter: \<open>src k\<close> is the value returned by
  its \<open>k\<close>-th call, and every class definition advances the call counter by one.
\<close>

type_synonym uuid = "128 word"

type_synonym uuid_source = "nat \<Rightarrow> uuid"

record Event =
  name :: string
  event_id :: uuid

definition EventMeta_new :: "uuid_source \<Rightarrow> string \<Rightarrow> nat \<Rightarrow> Event \<times> nat" where
  "EventMeta_new src nm k = (\<lparr>name = nm, event_id = src k\<rparr>, Suc k)"


text \<open>
  The three lifecycle classes of the module, in the order of their definition. The
  base class \<open>Event\<close> is defined first and takes a draw of its own (it has no display
  name and is never passed to the bus).
\<close>

record events_module =
  OnStart :: Event
  OnStarted :: Event
  OnExit :: Event

definition events :: "uuid_source \<Rightarrow> nat \<Rightarrow> events_module" where
  "events src k =
     (case EventMeta_new src ''on-start'' (Suc k) of
        (e1, k1) \<Rightarrow>
          (case EventMeta_new src ''on-stop'' k1 of
             (e2, k2) \<Rightarrow>
               (case EventMeta_new src ''on-exit'' k2 of
                  (e3, k3) \<Rightarrow> \<lparr>OnStart = e1, OnStarted = e2, OnExit = e3\<rparr>)))"

section \<open>The bus (bus.py)\<close>

text \<open>
  \<open>listeners\<close> is a dict from event identifier to a set of callables, \<open>_priorities\<close> a
  dict from (identifier, callable) to an integer. A Python set is kept here as the
  list of its elements in iteration order, without repetition; no statement below
  depends on which order that is. Callables are compared by identity, so they are
  values of an arbitrary type \<open>'h\<close>.
\<close>

record 'h EventBus =
  listeners :: "uuid \<rightharpoonup> 'h list"
  priorities :: "uuid \<times> 'h \<rightharpoonup> int"

text \<open>
  Exceptions. A dict or list access inside the bus raises \<open>KeyError\<close> or \<open>IndexError\<close>.
  What a dispatch call can raise is one of these, the bus's own \<open>NoListenersError\<close>
  with its message, or \<open>Raised e\<close>: an exception \<open>e\<close> (an instance of \<open>Exception\<close>)
  that left the body of a handler.
\<close>

datatype lookup_error = KeyError | IndexError

datatype 'x exn = Lookup lookup_error | NoListenersError string | Raised 'x

definition set_add :: "'a \<Rightarrow> 'a list \<Rightarrow> 'a list" where
  "set_add x xs = (if x \<in> set xs then xs else xs @ [x])"

definition set_discard :: "'a \<Rightarrow> 'a list \<Rightarrow> 'a list" where
  "set_discard x xs = removeAll x xs"

definition EventBus_init :: "Event list \<Rightarrow> 'h EventBus" where
  "EventBus_init default_events =
     \<lparr>listeners = foldl (\<lambda>m event. m(event_id event \<mapsto> [])) Map.empty default_events,
      priorities = Map.empty\<rparr>"

definition default_events :: "events_module \<Rightarrow> Event list" where
  "default_events evs = [OnStart evs, OnStarted evs, OnExit evs]"

text \<open>
  \<open>subscribe\<close>: with \<open>callback = None\<close> nothing is stored (the caller uses the returned
  decorator, which calls \<open>subscribe\<close> again with the callable).
\<close>

definition subscribe :: "'h EventBus \<Rightarrow> Event \<Rightarrow> 'h option \<Rightarrow> int \<Rightarrow> 'h EventBus" where
  "subscribe self event callback priority =
     (case callback of
        None \<Rightarrow> self
      | Some cb \<Rightarrow>
          (let callbacks = (case listeners self (event_id event) of None \<Rightarrow> [] | Some s \<Rightarrow> s)
           in self\<lparr>listeners := (listeners self)(event_id event \<mapsto> set_add cb callbacks),
                   priorities := (priorities self)((event_id event, cb) \<mapsto> priority)\<rparr>))"

definition decorator :: "'h EventBus \<Rightarrow> Event \<Rightarrow> int \<Rightarrow> 'h \<Rightarrow> 'h EventBus" where
  "decorator self event priority cb = subscribe self event (Some cb) priority"

text \<open>
  \<open>unsubscribe\<close>: \<open>del\<close> on a missing key raises \<open>KeyError\<close>, after the callable has
  already left the set, so the bus is returned in both cases.
\<close>

definition unsubscribe :: "'h EventBus \<Rightarrow> Event \<Rightarrow> 'h \<Rightarrow> (lookup_error + unit) \<times> 'h EventBus" where
  "unsubscribe self event callback =
     (case listeners self (event_id event) of
        None \<Rightarrow> (Inr (), self)
      | Some ls \<Rightarrow>
          if ls \<noteq> [] \<and> callback \<in> set ls then
            (let self' = self\<lparr>listeners := (listeners self)(event_id event \<mapsto> set_discard callback ls)\<rparr>
             in case priorities self' (event_id event, callback) of
                  None \<Rightarrow> (Inl KeyError, self')
                | Some _ \<Rightarrow> (Inr (), self'\<lparr>priorities := (priorities self')((event_id event, callback) := None)\<rparr>))
          else (Inr (), self))"

text \<open>\<open>_sort_listeners\<close>: pair every listener with its priority, then a stable sort on the priority.\<close>

fun unsorted :: "'h EventBus \<Rightarrow> uuid \<Rightarrow> 'h list \<Rightarrow> lookup_error + (int \<times> 'h) list" where
  "unsorted self event_name [] = Inr []"
| "unsorted self event_name (l # ls) =
     (case priorities self (event_name, l) of
        None \<Rightarrow> Inl KeyError
      | Some p \<Rightarrow> (case unsorted self event_name ls of
                     Inl e \<Rightarrow> Inl e
                   | Inr ps \<Rightarrow> Inr ((p, l) # ps)))"

definition sort_listeners :: "'h EventBus \<Rightarrow> uuid \<Rightarrow> lookup_error + (int \<times> 'h) list" where
  "sort_listeners self event_name =
     (case listeners self event_name of
        None \<Rightarrow> Inl KeyError
      | Some ls \<Rightarrow> (case unsorted self event_name ls of
                     Inl e \<Rightarrow> Inl e
                   | Inr ps \<Rightarrow> Inr (sort_key fst ps)))"

subsection \<open>Dispatch\<close>

text \<open>
  Handlers are arbitrary Python callables: they may change any object, the bus
  included, and they return a value or raise. The program state is a record holding
  the bus, the lines written to the bus's logger, and the remaining objects (\<open>heap\<close>).
  \<open>call h payload w\<close> is the effect of calling the callable \<open>h\<close> in state \<open>w\<close>: the
  returned value (\<open>Inr\<close>) or the raised exception (\<open>Inl\<close>), and the state afterwards.

  Every dispatch function returns, with its outcome and the final state, the list of
  calls it made itself, in order, each with what the callable returned or raised.
\<close>

datatype ('h, 'p, 'x) log_record =
    Info string
  | Error string
  | Handler_failure 'h 'p 'x

record ('h, 'p, 'x, 's) world =
  bus :: "'h EventBus"
  log :: "('h, 'p, 'x) log_record list"
  heap :: 's

type_synonym ('h, 'p, 'x, 'r, 's) call =
  "'h \<Rightarrow> 'p \<Rightarrow> ('h, 'p, 'x, 's) world \<Rightarrow> ('x + 'r) \<times> ('h, 'p, 'x, 's) world"

type_synonym ('h, 'x, 'r) calls = "('h \<times> ('x + 'r)) list"

fun broadcast_loop ::
  "('h, 'p, 'x, 'r, 's) call \<Rightarrow> 'p \<Rightarrow> (int \<times> 'h) list \<Rightarrow> 'r list \<Rightarrow> ('h, 'x, 'r) calls \<Rightarrow>
   ('h, 'p, 'x, 's) world \<Rightarrow> ('x exn + 'r list) \<times> ('h, 'x, 'r) calls \<times> ('h, 'p, 'x, 's) world" where
  "broadcast_loop call payload [] results cs w = (Inr results, cs, w)"
| "broadcast_loop call payload ((_, listener) # rest) results cs w =
     (case call listener payload w of
        (Inl error, w') \<Rightarrow>
          (Inl (Raised error), cs @ [(listener, Inl error)],
           w'\<lparr>log := log w' @ [Handler_failure listener payload error]\<rparr>)
      | (Inr result, w') \<Rightarrow>
          broadcast_loop call payload rest (results @ [result]) (cs @ [(listener, Inr result)]) w')"

definition broadcast ::
  "('h, 'p, 'x, 'r, 's) call \<Rightarrow> Event \<Rightarrow> 'p \<Rightarrow> ('h, 'p, 'x, 's) world \<Rightarrow>
   ('x exn + 'r list) \<times> ('h, 'x, 'r) calls \<times> ('h, 'p, 'x, 's) world" where
  "broadcast call event payload w =
     (if listeners (bus w) (event_id event) = None then (Inr [], [], w)
      else case sort_listeners (bus w) (event_id event) of
             Inl e \<Rightarrow> (Inl (Lookup e), [], w)
           | Inr ps \<Rightarrow> broadcast_loop call payload ps [] [] w)"

text \<open>
  \<open>broadcast_nothrow\<close>: an entry of the result is the pair the source appends, the
  exception with \<open>True\<close> or the returned value with \<open>False\<close>.
\<close>

fun broadcast_nothrow_loop ::
  "('h, 'p, 'x, 'r, 's) call \<Rightarrow> 'p \<Rightarrow> (int \<times> 'h) list \<Rightarrow> (('x + 'r) \<times> bool) list \<Rightarrow>
   ('h, 'x, 'r) calls \<Rightarrow> ('h, 'p, 'x, 's) world \<Rightarrow>
   ('x exn + (('x + 'r) \<times> bool) list) \<times> ('h, 'x, 'r) calls \<times> ('h, 'p, 'x, 's) world" where
  "broadcast_nothrow_loop call payload [] results cs w = (Inr results, cs, w)"
| "broadcast_nothrow_loop call payload ((_, listener) # rest) results cs w =
     (case call listener payload w of
        (Inl error, w') \<Rightarrow>
          broadcast_nothrow_loop call payload rest (results @ [(Inl error, True)])
            (cs @ [(listener, Inl error)]) w'
      | (Inr result, w') \<Rightarrow>
          broadcast_nothrow_loop call payload rest (results @ [(Inr result, False)])
            (cs @ [(listener, Inr result)]) w')"

definition broadcast_nothrow ::
  "('h, 'p, 'x, 'r, 's) call \<Rightarrow> Event \<Rightarrow> 'p \<Rightarrow> ('h, 'p, 'x, 's) world \<Rightarrow>
   ('x exn + (('x + 'r) \<times> bool) list) \<times> ('h, 'x, 'r) calls \<times> ('h, 'p, 'x, 's) world" where
  "broadcast_nothrow call event payload w =
     (if listeners (bus w) (event_id event) = None then (Inr [], [], w)
      else case sort_listeners (bus w) (event_id event) of
             Inl e \<Rightarrow> (Inl (Lookup e), [], w)
           | Inr ps \<Rightarrow> broadcast_nothrow_loop call payload ps [] [] w)"

text \<open>
  \<open>send_one\<close>: \<open>_sort_listeners(...)[0][1]\<close> raises \<open>KeyError\<close> for an unknown identifier
  and \<open>IndexError\<close> for an empty list; both are turned into \<open>NoListenersError\<close>. The
  handler is called outside the \<open>try\<close>.
\<close>

definition first_listener :: "'h EventBus \<Rightarrow> uuid \<Rightarrow> lookup_error + 'h" where
  "first_listener self event_name =
     (case sort_listeners self event_name of
        Inl e \<Rightarrow> Inl e
      | Inr [] \<Rightarrow> Inl IndexError
      | Inr ((_, listener) # _) \<Rightarrow> Inr listener)"

definition send_one ::
  "('h, 'p, 'x, 'r, 's) call \<Rightarrow> Event \<Rightarrow> 'p \<Rightarrow> ('h, 'p, 'x, 's) world \<Rightarrow>
   ('x exn + 'r) \<times> ('h, 'x, 'r) calls \<times> ('h, 'p, 'x, 's) world" where
  "send_one call event payload w =
     (case first_listener (bus w) (event_id event) of
        Inr listener \<Rightarrow>
          (case call listener payload w of
             (Inl error, w') \<Rightarrow> (Inl (Raised error), [(listener, Inl error)], w')
           | (Inr result, w') \<Rightarrow> (Inr result, [(listener, Inr result)], w'))
      | Inl e \<Rightarrow>
          (case e of
             IndexError \<Rightarrow>
               (let msg = ''No listeners for '' @ name event
                in (Inl (NoListenersError msg), [], w\<lparr>log := log w @ [Error msg]\<rparr>))
           | KeyError \<Rightarrow>
               (let msg = ''No listeners for '' @ name event
                in (Inl (NoListenersError msg), [], w\<lparr>log := log w @ [Error msg]\<rparr>))))"

text \<open>\<open>send_any\<close>: Python's \<open>None\<close> is the \<open>None\<close> of the option type.\<close>

fun send_any_loop ::
  "('h, 'p, 'x, 'r option, 's) call \<Rightarrow> 'p \<Rightarrow> (int \<times> 'h) list \<Rightarrow> ('h, 'x, 'r option) calls \<Rightarrow>
   ('h, 'p, 'x, 's) world \<Rightarrow>
   ('x exn + 'r option) \<times> ('h, 'x, 'r option) calls \<times> ('h, 'p, 'x, 's) world" where
  "send_any_loop call payload [] cs w = (Inr None, cs, w)"
| "send_any_loop call payload ((_, listener) # rest) cs w =
     (case call listener payload w of
        (Inl error, w') \<Rightarrow>
          (Inl (Raised error), cs @ [(listener, Inl error)],
           w'\<lparr>log := log w' @ [Handler_failure listener payload error]\<rparr>)
      | (Inr result, w') \<Rightarrow>
          (if result \<noteq> None then (Inr result, cs @ [(listener, Inr result)], w')
           else send_any_loop call payload rest (cs @ [(listener, Inr result)]) w'))"

definition send_any ::
  "('h, 'p, 'x, 'r option, 's) call \<Rightarrow> Event \<Rightarrow> 'p \<Rightarrow> ('h, 'p, 'x, 's) world \<Rightarrow>
   ('x exn + 'r option) \<times> ('h, 'x, 'r option) calls \<times> ('h, 'p, 'x, 's) world" where
  "send_any call event payload w =
     (if listeners (bus w) (event_id event) = None then (Inr None, [], w)
      else case sort_listeners (bus w) (event_id event) of
             Inl e \<Rightarrow> (Inl (Lookup e), [], w)
           | Inr ps \<Rightarrow> send_any_loop call payload ps [] w)"



section \<open>The subscriber base class (subscriber.py)\<close>












section \<open>Properties of a registry\<close>

text \<open>
  The callables registered for an identifier; the invariant that links the two
  dicts; the fact that a bucket is a set; and the order in which a dispatch visits the
  listeners of an identifier (empty when \<open>_sort_listeners\<close> raises).
\<close>

definition registered :: "'h EventBus \<Rightarrow> uuid \<Rightarrow> 'h set" where
  "registered b eid = (case listeners b eid of None \<Rightarrow> {} | Some ls \<Rightarrow> set ls)"

definition bus_inv :: "'h EventBus \<Rightarrow> bool" where
  "bus_inv b = (\<forall>eid h. (h \<in> registered b eid) = (priorities b (eid, h) \<noteq> None))"

definition buckets_distinct :: "'h EventBus \<Rightarrow> bool" where
  "buckets_distinct b = (\<forall>eid ls. listeners b eid = Some ls \<longrightarrow> distinct ls)"

definition wf_bus :: "'h EventBus \<Rightarrow> bool" where
  "wf_bus b = (bus_inv b \<and> buckets_distinct b)"

definition priority_order :: "'h EventBus \<Rightarrow> uuid \<Rightarrow> 'h list" where
  "priority_order b eid = (case sort_listeners b eid of Inl _ \<Rightarrow> [] | Inr ps \<Rightarrow> map snd ps)"

definition priority_of :: "'h EventBus \<Rightarrow> uuid \<Rightarrow> 'h \<Rightarrow> int" where
  "priority_of b eid h = the (priorities b (eid, h))"

text \<open>
  Order of two callables in a list of calls: whenever the second was called, the first
  was called earlier, and the second never comes before the first.
\<close>

definition invoked_in_order :: "'h \<Rightarrow> 'h \<Rightarrow> 'h list \<Rightarrow> bool" where
  "invoked_in_order h1 h2 tr =
     ((h2 \<in> set tr \<longrightarrow> (\<exists>xs ys zs. tr = xs @ h1 # ys @ h2 # zs)) \<and>
      \<not> (\<exists>xs ys zs. tr = xs @ h2 # ys @ h1 # zs))"

section \<open>Properties of a subscriber\<close>







section \<open>Scenarios of the test suite\<close>

text \<open>
  The events, handlers and buses of \<open>tests/test_trolleybus.py\<close>, for a run in which
  the \<open>k\<close>-th call of \<open>uuid.uuid4\<close> returned the version-4 identifier
  \<open>7c9e6679-7425-40de-8000-000000000000\<close> plus \<open>k\<close>: the module \<open>events\<close> is imported
  first, then the two test events are defined. Handlers are named by the name of
  the function in the test; \<open>_raises\<close> raises \<open>RuntimeError\<close>, any other name
  returns \<open>None\<close>.
\<close>

definition example_uuids :: uuid_source where
  "example_uuids k = 0x7c9e6679742540de8000000000000000 + of_nat k"

definition lifecycle :: events_module where
  "lifecycle = events example_uuids 0"

definition TestEvent :: Event where
  "TestEvent = fst (EventMeta_new example_uuids ''test-event'' 4)"

definition TestEventOptional :: Event where
  "TestEventOptional = fst (EventMeta_new example_uuids ''test-event-optional'' 5)"

definition new_bus :: "string EventBus" where
  "new_bus = EventBus_init (default_events lifecycle)"

definition test_call :: "(string, int, string, int option, unit) call" where
  "test_call h payload w =
     (if h = ''_low_priority'' then (Inr (Some payload), w)
      else if h = ''_high_priority'' then (Inr (Some (payload * 2)), w)
      else if h = ''_raises'' then (Inl ''RuntimeError'', w)
      else (Inr None, w))"

definition test_world :: "string EventBus \<Rightarrow> (string, int, string, unit) world" where
  "test_world b = \<lparr>bus = b, log = [], heap = ()\<rparr>"

definition priority_bus :: "string EventBus" where
  "priority_bus =
     subscribe (subscribe new_bus TestEvent (Some ''_low_priority'') 60)
       TestEvent (Some ''_high_priority'') 40"

definition failing_bus :: "string EventBus" where
  "failing_bus =
     subscribe (subscribe new_bus TestEventOptional (Some ''_low_priority'') 60)
       TestEventOptional (Some ''_raises'') 40"

definition optional_bus :: "string EventBus" where
  "optional_bus =
     subscribe (subscribe new_bus TestEventOptional (Some ''_low_priority'') 60)
       TestEventOptional (Some ''_returns_none'') 40"







section \<open>Sorting the listeners\<close>

lemma unsorted_Inr:
  "unsorted b eid ls = Inr ps \<Longrightarrow>
     ps = map (\<lambda>l. (priority_of b eid l, l)) ls \<and> (\<forall>l\<in>set ls. priorities b (eid, l) \<noteq> None)"
  by (induction ls arbitrary: ps) (auto simp: priority_of_def split: option.splits sum.splits)

lemma unsorted_total:
  "(\<forall>l\<in>set ls. priorities b (eid, l) \<noteq> None) \<Longrightarrow> \<exists>ps. unsorted b eid ls = Inr ps"
  by (induction ls) (auto split: option.splits sum.splits)

lemma sort_listeners_Inr:
  assumes "sort_listeners b eid = Inr ps"
  shows "\<exists>ls. listeners b eid = Some ls \<and>
           ps = sort_key fst (map (\<lambda>l. (priority_of b eid l, l)) ls) \<and>
           (\<forall>l\<in>set ls. priorities b (eid, l) \<noteq> None)"
  using assms unsorted_Inr [of b eid]
  by (auto simp: sort_listeners_def split: option.splits sum.splits)

lemma sort_listeners_sorted:
  "sort_listeners b eid = Inr ps \<Longrightarrow> sorted (map fst ps)"
  by (auto dest!: sort_listeners_Inr)

lemma sort_listeners_pairs:
  "sort_listeners b eid = Inr ps \<Longrightarrow> (p, l) \<in> set ps \<Longrightarrow> priorities b (eid, l) = Some p"
  by (auto dest!: sort_listeners_Inr simp: priority_of_def)

lemma sort_listeners_fst:
  "sort_listeners b eid = Inr ps \<Longrightarrow> map fst ps = map (priority_of b eid) (map snd ps)"
  by (auto dest!: sort_listeners_Inr simp: priority_of_def)

lemma sort_listeners_snd:
  "sort_listeners b eid = Inr ps \<Longrightarrow> listeners b eid = Some ls \<Longrightarrow>
     set (map snd ps) = set ls \<and> length ps = length ls \<and> (distinct ls \<longrightarrow> distinct (map snd ps))"
  by (auto dest!: sort_listeners_Inr simp: distinct_map inj_on_def image_image)

lemma sort_listeners_total:
  "bus_inv b \<Longrightarrow> listeners b eid = Some ls \<Longrightarrow> \<exists>ps. sort_listeners b eid = Inr ps"
  using unsorted_total [of ls b eid]
  by (auto simp: sort_listeners_def bus_inv_def registered_def split: option.splits sum.splits)

lemma priority_order_sorted: "sorted (map (priority_of b eid) (priority_order b eid))"
  using sort_listeners_sorted [of b eid] sort_listeners_fst [of b eid]
  by (auto simp: priority_order_def split: sum.splits)

lemma priority_order_unknown: "listeners b eid = None \<Longrightarrow> priority_order b eid = []"
  by (simp add: priority_order_def sort_listeners_def)

lemma priority_order_known:
  "bus_inv b \<Longrightarrow> listeners b eid = Some ls \<Longrightarrow>
     set (priority_order b eid) = set ls \<and> length (priority_order b eid) = length ls \<and>
     (distinct ls \<longrightarrow> distinct (priority_order b eid))"
  using sort_listeners_total [of b eid ls] sort_listeners_snd [of b eid _ ls]
  by (auto simp: priority_order_def split: sum.splits)

lemma priority_order_set: "bus_inv b \<Longrightarrow> set (priority_order b eid) = registered b eid"
  using priority_order_known [of b eid] priority_order_unknown [of b eid]
  by (cases "listeners b eid") (auto simp: registered_def)

lemma priority_order_distinct: "wf_bus b \<Longrightarrow> distinct (priority_order b eid)"
  using priority_order_known [of b eid] priority_order_unknown [of b eid]
  by (cases "listeners b eid") (auto simp: wf_bus_def buckets_distinct_def)

section \<open>The registry under subscribe and unsubscribe\<close>

lemma registered_subscribe:
  "registered (subscribe b ev (Some h) p) eid =
     (if eid = event_id ev then insert h (registered b eid) else registered b eid)"
  by (auto simp: registered_def subscribe_def set_add_def Let_def split: option.splits)

lemma priorities_subscribe:
  "priorities (subscribe b ev (Some h) p) = (priorities b)((event_id ev, h) \<mapsto> p)"
  by (simp add: subscribe_def Let_def)

lemma subscribe_None: "subscribe b ev None p = b"
  by (simp add: subscribe_def)

lemma bus_inv_subscribe: "bus_inv b \<Longrightarrow> bus_inv (subscribe b ev cb p)"
proof (cases cb)
  case None
  then show "bus_inv b \<Longrightarrow> ?thesis" by (simp add: subscribe_None)
next
  case (Some h)
  assume "bus_inv b"
  then show ?thesis
    unfolding Some bus_inv_def registered_subscribe priorities_subscribe by auto
qed

lemma buckets_distinct_subscribe: "buckets_distinct b \<Longrightarrow> buckets_distinct (subscribe b ev cb p)"
  by (cases cb)
    (auto simp: buckets_distinct_def subscribe_def set_add_def Let_def split: option.splits if_splits)

lemma wf_bus_subscribe: "wf_bus b \<Longrightarrow> wf_bus (subscribe b ev cb p)"
  by (simp add: wf_bus_def bus_inv_subscribe buckets_distinct_subscribe)

lemma unsubscribe_ok:
  assumes "bus_inv b"
  shows "\<exists>b'. unsubscribe b ev h = (Inr (), b') \<and>
           (\<forall>eid. registered b' eid =
              (if eid = event_id ev then registered b eid - {h} else registered b eid)) \<and>
           priorities b' = (priorities b)((event_id ev, h) := None)"
proof (cases "h \<in> registered b (event_id ev)")
  case False
  then have "unsubscribe b ev h = (Inr (), b)"
    by (auto simp: unsubscribe_def registered_def split: option.splits)
  moreover from False assms have "priorities b (event_id ev, h) = None"
    by (simp add: bus_inv_def)
  then have "priorities b = (priorities b)((event_id ev, h) := None)" by auto
  ultimately show ?thesis using False by auto
next
  case True
  then obtain ls where ls0: "listeners b (event_id ev) = Some ls" "h \<in> set ls"
    by (auto simp: registered_def split: option.splits)
  then have "ls \<noteq> []" by auto
  note ls = ls0 this
  from True assms obtain p where p: "priorities b (event_id ev, h) = Some p"
    by (auto simp: bus_inv_def)
  let ?b' = "b\<lparr>listeners := (listeners b)(event_id ev \<mapsto> set_discard h ls),
               priorities := (priorities b)((event_id ev, h) := None)\<rparr>"
  have "unsubscribe b ev h = (Inr (), ?b')"
    using ls p by (simp add: unsubscribe_def Let_def)
  moreover have "\<forall>eid. registered ?b' eid =
              (if eid = event_id ev then registered b eid - {h} else registered b eid)"
    using ls by (auto simp: registered_def set_discard_def)
  ultimately show ?thesis by simp
qed

lemma bus_inv_unsubscribe:
  "bus_inv b \<Longrightarrow> unsubscribe b ev h = (r, b') \<Longrightarrow> r = Inr () \<and> bus_inv b'"
  using unsubscribe_ok [of b ev h] by (auto simp: bus_inv_def split: if_splits)

lemma buckets_distinct_unsubscribe:
  "buckets_distinct b \<Longrightarrow> unsubscribe b ev h = (r, b') \<Longrightarrow> buckets_distinct b'"
  by (auto simp: buckets_distinct_def unsubscribe_def set_discard_def Let_def distinct_removeAll
      split: option.splits if_splits)

lemma wf_bus_unsubscribe: "wf_bus b \<Longrightarrow> unsubscribe b ev h = (r, b') \<Longrightarrow> wf_bus b'"
  by (auto simp: wf_bus_def dest: bus_inv_unsubscribe buckets_distinct_unsubscribe)

lemma init_listeners:
  "foldl (\<lambda>m event. m(event_id event \<mapsto> [])) m0 evs eid =
     (if eid \<in> event_id ` set evs then Some [] else m0 eid)"
  by (induction evs arbitrary: m0) auto

lemma registered_init: "registered (EventBus_init evs) eid = {}"
  by (simp add: registered_def EventBus_init_def init_listeners)

lemma bus_inv_init: "bus_inv (EventBus_init evs)"
  by (simp add: bus_inv_def registered_init) (simp add: EventBus_init_def)

lemma wf_bus_init: "wf_bus (EventBus_init evs)"
  by (auto simp: wf_bus_def bus_inv_init buckets_distinct_def)
     (auto simp: EventBus_init_def init_listeners split: if_splits)

subsection \<open>The test buses are well formed\<close>

lemmas test_defs = example_uuids_def lifecycle_def TestEvent_def TestEventOptional_def new_bus_def
  test_world_def priority_bus_def failing_bus_def optional_bus_def
  events_def EventMeta_new_def default_events_def EventBus_init_def subscribe_def set_add_def

lemma wf_priority_bus: "wf_bus priority_bus"
  by (simp add: priority_bus_def new_bus_def wf_bus_init wf_bus_subscribe)

lemma wf_new_bus: "wf_bus new_bus"
  by (simp add: new_bus_def wf_bus_init)



section \<open>The dispatch loops\<close>

lemma broadcast_loop_Inr:
  "broadcast_loop call p ps rs cs w = (Inr results, cs', w') \<Longrightarrow>
     \<exists>rs'. results = rs @ rs' \<and> length rs' = length ps \<and>
           cs' = cs @ zip (map snd ps) (map Inr rs')"
proof (induction ps arbitrary: rs cs w)
  case Nil
  then show ?case by simp
next
  case (Cons a ps)
  obtain pr l where a: "a = (pr, l)" by (cases a)
  obtain out w1 where c: "call l p w = (out, w1)" by (cases "call l p w")
  from Cons.prems a c obtain r where out: "out = Inr r"
    by (cases out) auto
  from Cons.prems a c out
  have "broadcast_loop call p ps (rs @ [r]) (cs @ [(l, Inr r)]) w1 = (Inr results, cs', w')"
    by simp
  from Cons.IH [OF this] obtain rs' where
    "results = (rs @ [r]) @ rs'" "length rs' = length ps"
    "cs' = (cs @ [(l, Inr r)]) @ zip (map snd ps) (map Inr rs')" by blast
  then have "results = rs @ (r # rs') \<and> length (r # rs') = length (a # ps) \<and>
      cs' = cs @ zip (map snd (a # ps)) (map Inr (r # rs'))"
    using a by simp
  then show ?case by blast
qed

lemma broadcast_loop_Inl:
  "broadcast_loop call p ps rs cs w = (Inl ex, cs', w') \<Longrightarrow>
     \<exists>k e rs' l. k < length ps \<and> ex = Raised e \<and> length rs' = k \<and>
        cs' = cs @ zip (map snd (take k ps)) (map Inr rs') @ [(snd (ps ! k), Inl e)] \<and>
        log w' = l @ [Handler_failure (snd (ps ! k)) p e]"
proof (induction ps arbitrary: rs cs w)
  case Nil
  then show ?case by simp
next
  case (Cons a ps)
  obtain pr l where a: "a = (pr, l)" by (cases a)
  obtain out w1 where c: "call l p w = (out, w1)" by (cases "call l p w")
  show ?case
  proof (cases out)
    case (Inl e)
    with Cons.prems a c
    have "ex = Raised e" "cs' = cs @ [(l, Inl e)]"
      "log w' = log w1 @ [Handler_failure l p e]" by auto
    then have "0 < length (a # ps) \<and> ex = Raised e \<and> length ([]::'d list) = 0 \<and>
        cs' = cs @ zip (map snd (take 0 (a # ps))) (map Inr []) @ [(snd ((a # ps) ! 0), Inl e)] \<and>
        log w' = log w1 @ [Handler_failure (snd ((a # ps) ! 0)) p e]"
      using a by simp
    then show ?thesis by blast
  next
    case (Inr r)
    with Cons.prems a c
    have "broadcast_loop call p ps (rs @ [r]) (cs @ [(l, Inr r)]) w1 = (Inl ex, cs', w')"
      by simp
    from Cons.IH [OF this] obtain k e rs' lg where k:
      "k < length ps" "ex = Raised e" "length rs' = k"
      "cs' = (cs @ [(l, Inr r)]) @ zip (map snd (take k ps)) (map Inr rs') @ [(snd (ps ! k), Inl e)]"
      "log w' = lg @ [Handler_failure (snd (ps ! k)) p e]" by blast
    then have "Suc k < length (a # ps) \<and> ex = Raised e \<and> length (r # rs') = Suc k \<and>
        cs' = cs @ zip (map snd (take (Suc k) (a # ps))) (map Inr (r # rs')) @
                [(snd ((a # ps) ! Suc k), Inl e)] \<and>
        log w' = lg @ [Handler_failure (snd ((a # ps) ! Suc k)) p e]"
      using a by simp
    then show ?thesis by blast
  qed
qed

lemma broadcast_nothrow_loop_eq:
  "broadcast_nothrow_loop call p ps rs cs w = (res, cs', w') \<Longrightarrow>
     \<exists>outs. length outs = length ps \<and> cs' = cs @ zip (map snd ps) outs \<and>
            res = Inr (rs @ map (\<lambda>out. (out, isl out)) outs)"
proof (induction ps arbitrary: rs cs w)
  case Nil
  then show ?case by simp
next
  case (Cons a ps)
  obtain pr l where a: "a = (pr, l)" by (cases a)
  obtain out w1 where c: "call l p w = (out, w1)" by (cases "call l p w")
  from Cons.prems a c
  have "broadcast_nothrow_loop call p ps (rs @ [(out, isl out)]) (cs @ [(l, out)]) w1 = (res, cs', w')"
    by (cases out) auto
  from Cons.IH [OF this] obtain outs where
    "length outs = length ps" "cs' = (cs @ [(l, out)]) @ zip (map snd ps) outs"
    "res = Inr ((rs @ [(out, isl out)]) @ map (\<lambda>out. (out, isl out)) outs)" by blast
  then have "length (out # outs) = length (a # ps) \<and>
      cs' = cs @ zip (map snd (a # ps)) (out # outs) \<and>
      res = Inr (rs @ map (\<lambda>out. (out, isl out)) (out # outs))"
    using a by simp
  then show ?case by blast
qed

lemma send_any_loop_Inr:
  "send_any_loop call p ps cs w = (Inr v, cs', w') \<Longrightarrow>
     (v = None \<and> cs' = cs @ zip (map snd ps) (replicate (length ps) (Inr None))) \<or>
     (\<exists>k. k < length ps \<and> v \<noteq> None \<and>
          cs' = cs @ zip (map snd (take k ps)) (replicate k (Inr None)) @ [(snd (ps ! k), Inr v)])"
proof (induction ps arbitrary: cs w)
  case Nil
  then show ?case by simp
next
  case (Cons a ps)
  obtain pr l where a: "a = (pr, l)" by (cases a)
  obtain out w1 where c: "call l p w = (out, w1)" by (cases "call l p w")
  from Cons.prems a c obtain r where out: "out = Inr r" by (cases out) auto
  show ?case
  proof (cases r)
    case (Some y)
    with Cons.prems a c out have "v = r" "cs' = cs @ [(l, Inr v)]" by auto
    with Some have "0 < length (a # ps) \<and> v \<noteq> None \<and>
        cs' = cs @ zip (map snd (take 0 (a # ps))) (replicate 0 (Inr None)) @ [(snd ((a # ps) ! 0), Inr v)]"
      using a by simp
    then show ?thesis by blast
  next
    case None
    with Cons.prems a c out
    have "send_any_loop call p ps (cs @ [(l, Inr None)]) w1 = (Inr v, cs', w')" by simp
    from Cons.IH [OF this] show ?thesis
    proof
      assume "v = None \<and> cs' = (cs @ [(l, Inr None)]) @ zip (map snd ps) (replicate (length ps) (Inr None))"
      then show ?thesis using a by simp
    next
      assume "\<exists>k<length ps. v \<noteq> None \<and>
        cs' = (cs @ [(l, Inr None)]) @ zip (map snd (take k ps)) (replicate k (Inr None)) @ [(snd (ps ! k), Inr v)]"
      then obtain k where "k < length ps" "v \<noteq> None"
        "cs' = (cs @ [(l, Inr None)]) @ zip (map snd (take k ps)) (replicate k (Inr None)) @ [(snd (ps ! k), Inr v)]"
        by blast
      then have "Suc k < length (a # ps) \<and> v \<noteq> None \<and>
        cs' = cs @ zip (map snd (take (Suc k) (a # ps))) (replicate (Suc k) (Inr None)) @
                [(snd ((a # ps) ! Suc k), Inr v)]"
        using a by simp
      then show ?thesis by blast
    qed
  qed
qed

lemma send_any_loop_Inl:
  "send_any_loop call p ps cs w = (Inl ex, cs', w') \<Longrightarrow>
     \<exists>k e l. k < length ps \<and> ex = Raised e \<and>
        cs' = cs @ zip (map snd (take k ps)) (replicate k (Inr None)) @ [(snd (ps ! k), Inl e)] \<and>
        log w' = l @ [Handler_failure (snd (ps ! k)) p e]"
proof (induction ps arbitrary: cs w)
  case Nil
  then show ?case by simp
next
  case (Cons a ps)
  obtain pr l where a: "a = (pr, l)" by (cases a)
  obtain out w1 where c: "call l p w = (out, w1)" by (cases "call l p w")
  show ?case
  proof (cases out)
    case (Inl e)
    with Cons.prems a c
    have "ex = Raised e" "cs' = cs @ [(l, Inl e)]"
      "log w' = log w1 @ [Handler_failure l p e]" by auto
    then have "0 < length (a # ps) \<and> ex = Raised e \<and>
        cs' = cs @ zip (map snd (take 0 (a # ps))) (replicate 0 (Inr None)) @ [(snd ((a # ps) ! 0), Inl e)] \<and>
        log w' = log w1 @ [Handler_failure (snd ((a # ps) ! 0)) p e]"
      using a by simp
    then show ?thesis by blast
  next
    case (Inr r)
    with Cons.prems a c have r: "r = None" by (cases r) auto
    with Inr Cons.prems a c
    have "send_any_loop call p ps (cs @ [(l, Inr None)]) w1 = (Inl ex, cs', w')" by simp
    from Cons.IH [OF this] obtain k e lg where
      "k < length ps" "ex = Raised e"
      "cs' = (cs @ [(l, Inr None)]) @ zip (map snd (take k ps)) (replicate k (Inr None)) @ [(snd (ps ! k), Inl e)]"
      "log w' = lg @ [Handler_failure (snd (ps ! k)) p e]" by blast
    then have "Suc k < length (a # ps) \<and> ex = Raised e \<and>
        cs' = cs @ zip (map snd (take (Suc k) (a # ps))) (replicate (Suc k) (Inr None)) @
                [(snd ((a # ps) ! Suc k), Inl e)] \<and>
        log w' = lg @ [Handler_failure (snd ((a # ps) ! Suc k)) p e]"
      using a by simp
    then show ?thesis by blast
  qed
qed

lemma dispatch_cases:
  assumes "bus_inv b"
  obtains (unknown) "listeners b eid = None" "priority_order b eid = []" "registered b eid = {}"
  | (known) ls ps where "listeners b eid = Some ls" "sort_listeners b eid = Inr ps"
      "map snd ps = priority_order b eid"
proof (cases "listeners b eid")
  case None
  then show ?thesis
    using unknown by (simp add: priority_order_unknown registered_def)
next
  case (Some ls)
  from sort_listeners_total [OF assms Some] obtain ps where "sort_listeners b eid = Inr ps" ..
  then show ?thesis using known Some by (simp add: priority_order_def)
qed


section \<open>Dispatch\<close>

subsection \<open>Lifecycle display names\<close>

text \<open>
  C6. The display names of the three lifecycle classes, as the module defines them:
  \<open>OnStart\<close> is named on-start and \<open>OnExit\<close> on-exit, but the class \<open>OnStarted\<close>
  carries the string on-stop, not on-started.
\<close>

theorem lifecycle_names:
  "name (OnStart (events src k)) = ''on-start'' \<and>
   name (OnStarted (events src k)) = ''on-stop'' \<and>
   name (OnStarted (events src k)) \<noteq> ''on-started'' \<and>
   name (OnExit (events src k)) = ''on-exit''"
  by (simp add: events_def EventMeta_new_def)

text \<open>
  C9. For an event with no subscriber, whether its identifier is unknown to the
  registry or its bucket is empty, \<open>broadcast\<close> returns the empty list, calls nothing
  and leaves the state as it is; it does not raise.
\<close>

theorem broadcast_no_subscribers:
  "registered (bus w) (event_id event) = {} \<Longrightarrow> broadcast call event payload w = (Inr [], [], w)"
  by (auto simp: registered_def broadcast_def sort_listeners_def split: option.splits)

theorem broadcast_no_subscribers_witness:
  "registered (bus (test_world new_bus)) (event_id TestEvent) = {} \<and>
   broadcast test_call TestEvent 2 (test_world new_bus) = (Inr [], [], test_world new_bus) \<and>
   registered (bus (test_world priority_bus)) (event_id (OnStart lifecycle)) = {} \<and>
   broadcast test_call (OnStart lifecycle) 2 (test_world priority_bus) =
     (Inr [], [], test_world priority_bus)"
proof -
  have a: "registered (bus (test_world new_bus)) (event_id TestEvent) = {}"
    by (simp add: registered_def test_defs)
  have b: "registered (bus (test_world priority_bus)) (event_id (OnStart lifecycle)) = {}"
    by (simp add: registered_def test_defs)
  from a b broadcast_no_subscribers [OF a, of test_call 2]
    broadcast_no_subscribers [OF b, of test_call 2]
  show ?thesis by simp
qed



lemma priority_order_facts:
  "wf_bus b \<Longrightarrow> hs = priority_order b eid \<Longrightarrow>
     set hs = registered b eid \<and> distinct hs \<and> sorted (map (priority_of b eid) hs)"
  by (simp add: priority_order_distinct priority_order_set priority_order_sorted wf_bus_def)



lemma first_listener_cases:
  assumes "bus_inv b"
  shows "(registered b eid = {} \<and> (first_listener b eid = Inl KeyError \<or> first_listener b eid = Inl IndexError)) \<or>
         (registered b eid \<noteq> {} \<and> priority_order b eid \<noteq> [] \<and>
          first_listener b eid = Inr (hd (priority_order b eid)))"
  using assms
proof (cases rule: dispatch_cases [where eid = eid])
  case unknown
  then show ?thesis by (simp add: first_listener_def sort_listeners_def)
next
  case (known ls ps)
  from sort_listeners_snd [OF known(2) known(1)] have l: "set (map snd ps) = set ls" by simp
  show ?thesis
  proof (cases ps)
    case Nil
    with l known show ?thesis by (simp add: first_listener_def registered_def)
  next
    case (Cons a ps')
    with known(3) have po: "priority_order b eid = snd a # map snd ps'" by simp
    from Cons l known(1,2) show ?thesis
      unfolding po by (cases a) (auto simp: first_listener_def registered_def)
  qed
qed

lemma sorted_hd_min:
  "sorted (map f hs) \<Longrightarrow> h \<in> set hs \<Longrightarrow> f (hd hs) \<le> f h"
  by (cases hs) auto

text \<open>
  C4. \<open>send_one\<close> on a well-formed registry. With no registered handler (unknown
  identifier or empty bucket) it raises \<open>NoListenersError\<close> with a message that ends
  in the event's display name, and calls nothing. Otherwise it calls exactly one
  handler, the first in priority order, whose priority is minimal, and returns its
  result or lets its exception through. \<open>NoListenersError\<close> is raised by \<open>send_one\<close>
  itself exactly when no handler is registered.
\<close>

theorem send_one_highest_priority:
  assumes wf: "wf_bus (bus w)"
    and hs: "hs = priority_order (bus w) (event_id event)"
  shows "(registered (bus w) (event_id event) = {} \<longrightarrow>
            send_one call event payload w =
              (Inl (NoListenersError (''No listeners for '' @ name event)), [],
               w\<lparr>log := log w @ [Error (''No listeners for '' @ name event)]\<rparr>)) \<and>
         (registered (bus w) (event_id event) \<noteq> {} \<longrightarrow>
            hd hs \<in> registered (bus w) (event_id event) \<and>
            (\<forall>h \<in> registered (bus w) (event_id event).
               priority_of (bus w) (event_id event) (hd hs) \<le> priority_of (bus w) (event_id event) h) \<and>
            send_one call event payload w =
              (case call (hd hs) payload w of
                 (Inl e, w1) \<Rightarrow> (Inl (Raised e), [(hd hs, Inl e)], w1)
               | (Inr r, w1) \<Rightarrow> (Inr r, [(hd hs, Inr r)], w1))) \<and>
         ((\<exists>msg. fst (send_one call event payload w) = Inl (NoListenersError msg)) =
            (registered (bus w) (event_id event) = {}))"
proof -
  from wf have inv: "bus_inv (bus w)" by (simp add: wf_bus_def)
  note facts = priority_order_facts [OF wf hs]
  from first_listener_cases [OF inv, of "event_id event"] show ?thesis
  proof (elim disjE conjE)
    assume "registered (bus w) (event_id event) = {}"
      "first_listener (bus w) (event_id event) = Inl KeyError"
    then show ?thesis by (simp add: send_one_def Let_def)
  next
    assume "registered (bus w) (event_id event) = {}"
      "first_listener (bus w) (event_id event) = Inl IndexError"
    then show ?thesis by (simp add: send_one_def Let_def)
  next
    assume ne: "registered (bus w) (event_id event) \<noteq> {}"
      "priority_order (bus w) (event_id event) \<noteq> []"
      and fl: "first_listener (bus w) (event_id event) = Inr (hd (priority_order (bus w) (event_id event)))"
    have mem: "hd hs \<in> registered (bus w) (event_id event)"
      using facts ne hs by (metis hd_in_set)
    have min: "\<forall>h \<in> registered (bus w) (event_id event).
               priority_of (bus w) (event_id event) (hd hs) \<le> priority_of (bus w) (event_id event) h"
      using facts sorted_hd_min [of "priority_of (bus w) (event_id event)" hs] by blast
    have run: "send_one call event payload w =
              (case call (hd hs) payload w of
                 (Inl e, w1) \<Rightarrow> (Inl (Raised e), [(hd hs, Inl e)], w1)
               | (Inr r, w1) \<Rightarrow> (Inr r, [(hd hs, Inr r)], w1))"
      using fl unfolding hs by (simp add: send_one_def)
    have "\<not> (\<exists>msg. fst (send_one call event payload w) = Inl (NoListenersError msg))"
      unfolding run by (auto split: prod.splits sum.splits)
    with ne mem min run show ?thesis by simp
  qed
qed

theorem send_one_highest_priority_witness:
  "wf_bus (bus (test_world priority_bus)) \<and>
   [''_high_priority'', ''_low_priority''] =
     priority_order (bus (test_world priority_bus)) (event_id TestEvent) \<and>
   registered (bus (test_world priority_bus)) (event_id TestEvent) \<noteq> {} \<and>
   send_one test_call TestEvent 2 (test_world priority_bus) =
     (Inr (Some 4), [(''_high_priority'', Inr (Some 4))], test_world priority_bus) \<and>
   wf_bus (bus (test_world new_bus)) \<and>
   registered (bus (test_world new_bus)) (event_id TestEvent) = {} \<and>
   send_one test_call TestEvent 1 (test_world new_bus) =
     (Inl (NoListenersError ''No listeners for test-event''), [],
      (test_world new_bus)\<lparr>log := [Error ''No listeners for test-event'']\<rparr>)"
proof -
  have wf: "wf_bus (bus (test_world priority_bus))"
    by (simp add: test_world_def wf_priority_bus)
  have hs: "[''_high_priority'', ''_low_priority''] =
      priority_order (bus (test_world priority_bus)) (event_id TestEvent)"
    by (simp add: priority_order_def sort_listeners_def test_defs)
  have ne: "registered (bus (test_world priority_bus)) (event_id TestEvent) \<noteq> {}"
    by (simp add: registered_def test_defs)
  have wf0: "wf_bus (bus (test_world new_bus))"
    by (simp add: test_world_def wf_new_bus)
  have hs0: "[] = priority_order (bus (test_world new_bus)) (event_id TestEvent)"
    by (simp add: priority_order_def sort_listeners_def test_defs)
  have em: "registered (bus (test_world new_bus)) (event_id TestEvent) = {}"
    by (simp add: registered_def test_defs)
  have a: "send_one test_call TestEvent 2 (test_world priority_bus) =
     (Inr (Some 4), [(''_high_priority'', Inr (Some 4))], test_world priority_bus)"
    using send_one_highest_priority [OF wf hs, of test_call 2] ne by (simp add: test_call_def)
  have b: "send_one test_call TestEvent 1 (test_world new_bus) =
     (Inl (NoListenersError ''No listeners for test-event''), [],
      (test_world new_bus)\<lparr>log := [Error ''No listeners for test-event'']\<rparr>)"
    using send_one_highest_priority [OF wf0 hs0, of test_call 1] em
    by (simp add: test_world_def TestEvent_def EventMeta_new_def)
  from wf hs ne a wf0 em b show ?thesis by (intro conjI)
qed



subsection \<open>Priority order\<close>

lemma sorted_in_order:
  assumes srt: "sorted (map f hs)" and h1: "h1 \<in> set hs" and lt: "f h1 < (f h2 :: int)"
  shows "invoked_in_order h1 h2 (take n hs)"
proof -
  have a: "\<exists>xs ys zs. take n hs = xs @ h1 # ys @ h2 # zs" if "h2 \<in> set (take n hs)"
  proof -
    from that obtain as bs where t: "take n hs = as @ h2 # bs" by (meson split_list)
    then have hs: "hs = as @ h2 # (bs @ drop n hs)"
      by (metis append_take_drop_id append_Cons append_assoc)
    have "h1 \<notin> set (bs @ drop n hs)"
    proof
      assume "h1 \<in> set (bs @ drop n hs)"
      moreover from srt hs have "sorted (map f (as @ h2 # (bs @ drop n hs)))" by simp
      ultimately have "f h2 \<le> f h1" by (auto simp: sorted_append)
      with lt show False by simp
    qed
    moreover from lt have "h1 \<noteq> h2" by auto
    ultimately have "h1 \<in> set as" using h1 by (subst (asm) hs) auto
    then obtain xs ys where "as = xs @ h1 # ys" by (meson split_list)
    with t have "take n hs = xs @ h1 # ys @ h2 # bs" by simp
    then show ?thesis by blast
  qed
  have b: "\<not> (\<exists>xs ys zs. take n hs = xs @ h2 # ys @ h1 # zs)"
  proof
    assume "\<exists>xs ys zs. take n hs = xs @ h2 # ys @ h1 # zs"
    then obtain xs ys zs where t: "take n hs = xs @ h2 # ys @ h1 # zs" by blast
    from srt have "sorted (take n (map f hs))" by (rule sorted_wrt_take)
    then have "sorted (map f (xs @ h2 # ys @ h1 # zs))" by (simp add: take_map t)
    then have "f h2 \<le> f h1" by (auto simp: sorted_append)
    with lt show False by simp
  qed
  from a b show ?thesis by (simp add: invoked_in_order_def)
qed

lemma prefix_partial:
  "k < length ps \<Longrightarrow> length ys = k \<Longrightarrow>
     map fst (zip (map snd (take k ps)) ys @ [(snd (ps ! k), out)]) = take (Suc k) (map snd ps)"
  by (simp add: take_Suc_conv_app_nth take_map)

lemma broadcast_prefix:
  "\<exists>n. map fst (fst (snd (broadcast call event payload w))) =
       take n (priority_order (bus w) (event_id event))"
proof (cases "listeners (bus w) (event_id event) = None \<or>
              (\<exists>e. sort_listeners (bus w) (event_id event) = Inl e)")
  case True
  then have "fst (snd (broadcast call event payload w)) = []"
    by (auto simp: broadcast_def)
  then show ?thesis by simp
next
  case False
  then obtain ps where ps: "sort_listeners (bus w) (event_id event) = Inr ps"
    by (cases "sort_listeners (bus w) (event_id event)") auto
  obtain res cs w' where run: "broadcast_loop call payload ps [] [] w = (res, cs, w')"
    by (cases "broadcast_loop call payload ps [] [] w")
  with False ps have b: "fst (snd (broadcast call event payload w)) = cs"
    by (auto simp: broadcast_def)
  have po: "priority_order (bus w) (event_id event) = map snd ps"
    using ps by (simp add: priority_order_def)
  show ?thesis
  proof (cases res)
    case (Inr results)
    from broadcast_loop_Inr [OF run [unfolded Inr]]
    have "map fst cs = take (length ps) (map snd ps)" by auto
    then show ?thesis unfolding b po by blast
  next
    case (Inl ex)
    from broadcast_loop_Inl [OF run [unfolded Inl]] obtain k e rs' where
      "k < length ps" "length rs' = k"
      "cs = zip (map snd (take k ps)) (map Inr rs') @ [(snd (ps ! k), Inl e)]" by auto
    then have "map fst cs = take (Suc k) (map snd ps)"
      using prefix_partial [of k ps "map Inr rs'"] by simp
    then show ?thesis unfolding b po by blast
  qed
qed

lemma broadcast_nothrow_prefix:
  "\<exists>n. map fst (fst (snd (broadcast_nothrow call event payload w))) =
       take n (priority_order (bus w) (event_id event))"
proof (cases "listeners (bus w) (event_id event) = None \<or>
              (\<exists>e. sort_listeners (bus w) (event_id event) = Inl e)")
  case True
  then have "fst (snd (broadcast_nothrow call event payload w)) = []"
    by (auto simp: broadcast_nothrow_def)
  then show ?thesis by simp
next
  case False
  then obtain ps where ps: "sort_listeners (bus w) (event_id event) = Inr ps"
    by (cases "sort_listeners (bus w) (event_id event)") auto
  obtain res cs w' where run: "broadcast_nothrow_loop call payload ps [] [] w = (res, cs, w')"
    by (cases "broadcast_nothrow_loop call payload ps [] [] w")
  with False ps have b: "fst (snd (broadcast_nothrow call event payload w)) = cs"
    by (auto simp: broadcast_nothrow_def)
  have po: "priority_order (bus w) (event_id event) = map snd ps"
    using ps by (simp add: priority_order_def)
  from broadcast_nothrow_loop_eq [OF run]
  have "map fst cs = take (length ps) (map snd ps)" by auto
  then show ?thesis unfolding b po by blast
qed

lemma send_one_prefix:
  "\<exists>n. map fst (fst (snd (send_one call event payload w))) =
       take n (priority_order (bus w) (event_id event))"
proof (cases "first_listener (bus w) (event_id event)")
  case (Inl e)
  then have "fst (snd (send_one call event payload w)) = []"
    by (cases e) (simp_all add: send_one_def Let_def)
  then show ?thesis by simp
next
  case (Inr l)
  then obtain ps where ps: "sort_listeners (bus w) (event_id event) = Inr ps" and "ps \<noteq> []"
    and l: "l = snd (hd ps)"
    by (auto simp: first_listener_def split: sum.splits list.splits)
  then have "take 1 (priority_order (bus w) (event_id event)) = [l]"
    by (cases ps) (auto simp: priority_order_def)
  moreover have "map fst (fst (snd (send_one call event payload w))) = [l]"
    using Inr by (auto simp: send_one_def split: prod.splits sum.splits)
  ultimately show ?thesis by metis
qed

lemma send_any_prefix:
  "\<exists>n. map fst (fst (snd (send_any call event payload w))) =
       take n (priority_order (bus w) (event_id event))"
proof (cases "listeners (bus w) (event_id event) = None \<or>
              (\<exists>e. sort_listeners (bus w) (event_id event) = Inl e)")
  case True
  then have "fst (snd (send_any call event payload w)) = []"
    by (auto simp: send_any_def)
  then show ?thesis by simp
next
  case False
  then obtain ps where ps: "sort_listeners (bus w) (event_id event) = Inr ps"
    by (cases "sort_listeners (bus w) (event_id event)") auto
  obtain res cs w' where run: "send_any_loop call payload ps [] w = (res, cs, w')"
    by (cases "send_any_loop call payload ps [] w")
  with False ps have b: "fst (snd (send_any call event payload w)) = cs"
    by (auto simp: send_any_def)
  have po: "priority_order (bus w) (event_id event) = map snd ps"
    using ps by (simp add: priority_order_def)
  show ?thesis
  proof (cases res)
    case (Inr v)
    from send_any_loop_Inr [OF run [unfolded Inr]]
    have "map fst cs = take (length ps) (map snd ps) \<or>
          (\<exists>k. map fst cs = take (Suc k) (map snd ps))"
      using prefix_partial [of _ ps "replicate _ (Inr None)"] by auto
    then show ?thesis unfolding b po by blast
  next
    case (Inl ex)
    from send_any_loop_Inl [OF run [unfolded Inl]] obtain k e where
      "k < length ps"
      "cs = zip (map snd (take k ps)) (replicate k (Inr None)) @ [(snd (ps ! k), Inl e)]" by auto
    then have "map fst cs = take (Suc k) (map snd ps)"
      using prefix_partial [of k ps "replicate k (Inr None)"] by simp
    then show ?thesis unfolding b po by blast
  qed
qed

text \<open>
  C1. Two handlers registered for the same event with priorities \<open>p1 < p2\<close>:
  \<open>_sort_listeners\<close> returns its pairs in ascending priority with the first handler
  before the second, and each of the four dispatch functions calls the first handler
  before the second whenever it calls the second, and never the second before the
  first.
\<close>

theorem priority_order_respected:
  assumes p1: "priorities (bus w) (event_id event, h1) = Some p1"
    and p2: "priorities (bus w) (event_id event, h2) = Some p2"
    and r1: "h1 \<in> registered (bus w) (event_id event)"
    and r2: "h2 \<in> registered (bus w) (event_id event)"
    and lt: "p1 < p2"
  shows "(\<forall>ps. sort_listeners (bus w) (event_id event) = Inr ps \<longrightarrow>
            sorted (map fst ps) \<and> (\<exists>xs ys zs. ps = xs @ (p1, h1) # ys @ (p2, h2) # zs)) \<and>
         invoked_in_order h1 h2 (map fst (fst (snd (broadcast call_b event payload w)))) \<and>
         invoked_in_order h1 h2 (map fst (fst (snd (broadcast_nothrow call_n event payload w)))) \<and>
         invoked_in_order h1 h2 (map fst (fst (snd (send_one call_o event payload w)))) \<and>
         invoked_in_order h1 h2 (map fst (fst (snd (send_any call_a event payload_a w))))"
proof -
  let ?b = "bus w" and ?e = "event_id event"
  have lt': "priority_of ?b ?e h1 < priority_of ?b ?e h2"
    using p1 p2 lt by (simp add: priority_of_def)
  have srt: "sorted (map (priority_of ?b ?e) (priority_order ?b ?e))"
    by (rule priority_order_sorted)
  have prim: "sorted (map fst ps) \<and> (\<exists>xs ys zs. ps = xs @ (p1, h1) # ys @ (p2, h2) # zs)"
    if ps: "sort_listeners ?b ?e = Inr ps" for ps
  proof -
    from r1 obtain ls where ls: "listeners ?b ?e = Some ls"
      by (auto simp: registered_def split: option.splits)
    from sort_listeners_snd [OF ps ls] r1 r2 ls
    have mem: "h1 \<in> set (map snd ps)" "h2 \<in> set (map snd ps)"
      by (auto simp: registered_def)
    have po: "priority_order ?b ?e = map snd ps" using ps by (simp add: priority_order_def)
    from sorted_in_order [OF srt, of h1 h2 "length ps"] lt' mem po
    obtain xs ys zs where sp: "map snd ps = xs @ h1 # ys @ h2 # zs"
      by (auto simp: invoked_in_order_def)
    have eq: "ps = map (\<lambda>l. (priority_of ?b ?e l, l)) (map snd ps)"
      using sort_listeners_fst [OF ps] by (auto intro!: nth_equalityI simp: list_eq_iff_nth_eq prod_eq_iff) 
    have "ps = map (\<lambda>l. (priority_of ?b ?e l, l)) xs @ (p1, h1) #
               map (\<lambda>l. (priority_of ?b ?e l, l)) ys @ (p2, h2) # map (\<lambda>l. (priority_of ?b ?e l, l)) zs"
      by (subst eq, subst sp) (simp add: priority_of_def p1 p2)
    with sort_listeners_sorted [OF ps] show ?thesis by blast
  qed
  have mem: "h1 \<in> set (priority_order ?b ?e)" if "priority_order ?b ?e \<noteq> []"
  proof -
    from that obtain ps where ps: "sort_listeners ?b ?e = Inr ps"
      by (auto simp: priority_order_def split: sum.splits)
    from r1 obtain ls where ls: "listeners ?b ?e = Some ls"
      by (auto simp: registered_def split: option.splits)
    from sort_listeners_snd [OF ps ls] r1 ls ps show ?thesis
      by (auto simp: registered_def priority_order_def)
  qed
  have ord: "invoked_in_order h1 h2 (take n (priority_order ?b ?e))" for n
  proof (cases "priority_order ?b ?e = []")
    case True
    then show ?thesis by (simp add: invoked_in_order_def)
  next
    case False
    from sorted_in_order [OF srt mem [OF False] lt'] show ?thesis .
  qed
  from prim ord show ?thesis
    using broadcast_prefix [of call_b event payload w]
      broadcast_nothrow_prefix [of call_n event payload w]
      send_one_prefix [of call_o event payload w]
      send_any_prefix [of call_a event payload_a w]
    by metis
qed

theorem priority_order_respected_witness:
  "priorities (bus (test_world priority_bus)) (event_id TestEvent, ''_high_priority'') = Some 40 \<and>
   priorities (bus (test_world priority_bus)) (event_id TestEvent, ''_low_priority'') = Some 60 \<and>
   ''_high_priority'' \<in> registered (bus (test_world priority_bus)) (event_id TestEvent) \<and>
   ''_low_priority'' \<in> registered (bus (test_world priority_bus)) (event_id TestEvent) \<and>
   (40 :: int) < 60 \<and>
   map fst (fst (snd (broadcast test_call TestEvent 2 (test_world priority_bus)))) =
     [''_high_priority'', ''_low_priority''] \<and>
   invoked_in_order ''_high_priority'' ''_low_priority''
     (map fst (fst (snd (broadcast test_call TestEvent 2 (test_world priority_bus))))) \<and>
   invoked_in_order ''_high_priority'' ''_low_priority''
     (map fst (fst (snd (broadcast_nothrow test_call TestEvent 2 (test_world priority_bus))))) \<and>
   invoked_in_order ''_high_priority'' ''_low_priority''
     (map fst (fst (snd (send_one test_call TestEvent 2 (test_world priority_bus))))) \<and>
   invoked_in_order ''_high_priority'' ''_low_priority''
     (map fst (fst (snd (send_any test_call TestEvent 2 (test_world priority_bus)))))"
proof -
  have p1: "priorities (bus (test_world priority_bus)) (event_id TestEvent, ''_high_priority'') = Some 40"
    by (simp add: test_defs)
  have p2: "priorities (bus (test_world priority_bus)) (event_id TestEvent, ''_low_priority'') = Some 60"
    by (simp add: test_defs)
  have r1: "''_high_priority'' \<in> registered (bus (test_world priority_bus)) (event_id TestEvent)"
    by (simp add: registered_def test_defs)
  have r2: "''_low_priority'' \<in> registered (bus (test_world priority_bus)) (event_id TestEvent)"
    by (simp add: registered_def test_defs)
  have lt: "(40 :: int) < 60" by simp
  have run: "map fst (fst (snd (broadcast test_call TestEvent 2 (test_world priority_bus)))) =
     [''_high_priority'', ''_low_priority'']"
    by (simp add: broadcast_def sort_listeners_def test_call_def test_defs)
  from priority_order_respected [OF p1 p2 r1 r2 lt, of test_call 2 test_call test_call test_call 2]
    p1 p2 r1 r2 lt run
  show ?thesis by (elim conjE, intro conjI) assumption+
qed

section \<open>The registry invariant and event identifiers\<close>

text \<open>
  C10. The registry invariant: a callable is in the bucket of an identifier exactly
  when the pair of identifier and callable has a priority. A new bus satisfies it;
  \<open>subscribe\<close> and \<open>unsubscribe\<close> keep it, and \<open>unsubscribe\<close> does not raise; under it
  \<open>_sort_listeners\<close> succeeds for every identifier that is a key of \<open>listeners\<close>.
\<close>

theorem registry_invariant:
  "bus_inv (EventBus_init evs) \<and>
   (bus_inv b \<longrightarrow>
      bus_inv (subscribe b event cb priority) \<and>
      (\<exists>b'. unsubscribe b event h = (Inr (), b') \<and> bus_inv b') \<and>
      (\<forall>eid ls. listeners b eid = Some ls \<longrightarrow> (\<exists>ps. sort_listeners b eid = Inr ps)))"
proof -
  have unsub: "\<exists>b'. unsubscribe b event h = (Inr (), b') \<and> bus_inv b'" if "bus_inv b"
    using bus_inv_unsubscribe [OF that, of event h] by (cases "unsubscribe b event h") auto
  show ?thesis
    using bus_inv_init unsub bus_inv_subscribe [of b event cb priority] sort_listeners_total [of b]
    by blast
qed

theorem registry_invariant_witness:
  "bus_inv new_bus \<and>
   bus_inv (subscribe new_bus TestEvent (Some ''_low_priority'') 60) \<and>
   (\<exists>b'. unsubscribe (subscribe new_bus TestEvent (Some ''_low_priority'') 60) TestEvent
            ''_low_priority'' = (Inr (), b') \<and> bus_inv b') \<and>
   (\<exists>ps. sort_listeners (subscribe new_bus TestEvent (Some ''_low_priority'') 60)
            (event_id TestEvent) = Inr ps)"
proof -
  let ?b = "subscribe new_bus TestEvent (Some ''_low_priority'') 60"
  note r = registry_invariant [where evs = "default_events lifecycle" and event = TestEvent
      and h = "''_low_priority''"]
  have i: "bus_inv new_bus"
    unfolding new_bus_def by (rule r [THEN conjunct1])
  have s: "bus_inv ?b"
    by (rule r [THEN conjunct2, THEN mp, OF i, THEN conjunct1])
  have l: "listeners ?b (event_id TestEvent) = Some [''_low_priority'']"
    by (simp add: test_defs)
  note t = r [where b = ?b, THEN conjunct2, THEN mp, OF s, THEN conjunct2]
  have u: "\<exists>b'. unsubscribe ?b TestEvent ''_low_priority'' = (Inr (), b') \<and> bus_inv b'"
    by (rule t [THEN conjunct1])
  have v: "\<exists>ps. sort_listeners ?b (event_id TestEvent) = Inr ps"
    by (rule t [THEN conjunct2, THEN spec, THEN spec, THEN mp, OF l])
  from i s u v show ?thesis by (intro conjI)
qed




section \<open>The subscriber between start and exit\<close>


















end
